theory Spec2Isabelle
  imports Main "HOL-Library.Word"
begin

section \<open>PicoLibc system calls of RIOT: sys/picolibc_syscalls_default/syscalls.c\<close>

subsection \<open>Data\<close>

text \<open>A C \<^verbatim>\<open>char\<close> is one byte; \<^verbatim>\<open>'\n'\<close> is the byte 10.\<close>

type_synonym byte = "8 word"

text \<open>
  The values \<^verbatim>\<open>errno\<close> takes in this file. The numbers behind the three macros are
  in \<^verbatim>\<open><errno.h>\<close>, which is not part of the sources; they are kept symbolic.
  \<open>Errno_zero\<close> is the value before any failure.
\<close>

datatype errno_code = Errno_zero | ESRCH | ENODEV | ENOSYS

text \<open>\<^verbatim>\<open>struct tms\<close> of \<^verbatim>\<open><sys/times.h>\<close>: four \<^verbatim>\<open>clock_t\<close> fields.\<close>

record tms =
  tms_utime :: int
  tms_stime :: int
  tms_cutime :: int
  tms_cstime :: int

text \<open>
  What the file does to its two statics and every call it makes to a collaborator, in
  program order. \<open>Stdio_write data len\<close> is the call \<^verbatim>\<open>stdio_write(data, len)\<close>, with
  \<open>data\<close> the bytes stored at the pointer; the bytes handed over are \<open>take len data\<close>.
\<close>

datatype event =
    Mutex_lock
  | Mutex_unlock
  | Queued_load
  | Queued_store int
  | Stdout_store nat byte
  | Stdio_write "byte list" nat
  | Stdio_read nat
  | Log_info int
  | Pm_off

text \<open>
  The state the file works on: the static \<^verbatim>\<open>char picolibc_stdout[64]\<close>, the static
  \<^verbatim>\<open>int picolibc_stdout_queued\<close>, \<^verbatim>\<open>errno\<close>, the \<^verbatim>\<open>struct tms\<close> objects in memory
  (by address, 0 is \<^verbatim>\<open>NULL\<close>) and the events so far.
\<close>

record state =
  picolibc_stdout :: "byte list"
  picolibc_stdout_queued :: int
  errno :: errno_code
  tms_mem :: "nat \<Rightarrow> tms option"
  trace :: "event list"

text \<open>
  What the collaborators answer. Neither \<^verbatim>\<open>stdio_base.h\<close> nor the platform's ABI are
  part of the sources, so they are parameters: the value \<^verbatim>\<open>stdio_write\<close> returns, the
  bytes \<^verbatim>\<open>stdio_read\<close> stores into the caller's buffer (both may depend on everything
  that happened before), and whether plain \<^verbatim>\<open>char\<close> is signed.
\<close>

record collab =
  stdio_write_ret :: "event list \<Rightarrow> byte list \<Rightarrow> nat \<Rightarrow> int"
  stdio_read_data :: "event list \<Rightarrow> nat \<Rightarrow> byte list"
  char_is_signed :: bool

text \<open>
  Undefined behaviour of the C program is a result of its own: an index outside the
  64-byte array, in a store or in the range handed to the channel.
\<close>

datatype fault = Out_of_bounds

definition PICOLIBC_STDOUT_BUFSIZE :: int where
  "PICOLIBC_STDOUT_BUFSIZE = 64"

definition NULL :: nat where
  "NULL = 0"

subsection \<open>Collaborators and primitive accesses\<close>

definition emit :: "event \<Rightarrow> state \<Rightarrow> state" where
  "emit e s = s\<lparr>trace := trace s @ [e]\<rparr>"

text \<open>The events between an earlier state and a later one.\<close>

definition new_events :: "state \<Rightarrow> state \<Rightarrow> event list" where
  "new_events s s' = drop (length (trace s)) (trace s')"

text \<open>
  Modelled from the spec: \<^verbatim>\<open>mutex_lock\<close> and \<^verbatim>\<open>mutex_unlock\<close> of \<^verbatim>\<open>mutex.h\<close>, called on
  the one mutex \<^verbatim>\<open>picolibc_put_mutex\<close>. The calls are recorded.
\<close>

definition mutex_lock :: "state \<Rightarrow> state" where
  "mutex_lock s = emit Mutex_lock s"

definition mutex_unlock :: "state \<Rightarrow> state" where
  "mutex_unlock s = emit Mutex_unlock s"

text \<open>
  Modelled from the spec: \<^verbatim>\<open>stdio_write\<close> and \<^verbatim>\<open>stdio_read\<close> of \<^verbatim>\<open>stdio_base.h\<close>, the
  channel driver. A read stores at most \<open>len\<close> bytes.
\<close>

definition stdio_write :: "collab \<Rightarrow> byte list \<Rightarrow> nat \<Rightarrow> state \<Rightarrow> int \<times> state" where
  "stdio_write env data len s =
     (stdio_write_ret env (trace s) data len, emit (Stdio_write data len) s)"

definition stdio_read :: "collab \<Rightarrow> nat \<Rightarrow> state \<Rightarrow> byte list \<times> state" where
  "stdio_read env len s =
     (take len (stdio_read_data env (trace s) len), emit (Stdio_read len) s)"

text \<open>
  Modelled from the spec: the macro \<^verbatim>\<open>LOG_INFO\<close> of \<^verbatim>\<open>log.h\<close> (called here with the
  format \<^verbatim>\<open>"#! exit %i: powering off\n"\<close> and the exit code) and \<^verbatim>\<open>pm_off\<close> of
  \<^verbatim>\<open>periph/pm.h\<close>.
\<close>

definition LOG_INFO :: "int \<Rightarrow> state \<Rightarrow> state" where
  "LOG_INFO n s = emit (Log_info n) s"

definition pm_off :: "state \<Rightarrow> state" where
  "pm_off s = emit Pm_off s"

text \<open>The conversion of a \<^verbatim>\<open>char\<close> to \<^verbatim>\<open>int\<close>.\<close>

definition int_of_char :: "collab \<Rightarrow> byte \<Rightarrow> int" where
  "int_of_char env c = (if char_is_signed env then sint c else uint c)"

text \<open>Reads and writes of \<^verbatim>\<open>picolibc_stdout_queued\<close> and stores into \<^verbatim>\<open>picolibc_stdout\<close>.\<close>

definition load_queued :: "state \<Rightarrow> int \<times> state" where
  "load_queued s = (picolibc_stdout_queued s, emit Queued_load s)"

definition store_queued :: "int \<Rightarrow> state \<Rightarrow> state" where
  "store_queued v s = emit (Queued_store v) (s\<lparr>picolibc_stdout_queued := v\<rparr>)"

definition store_stdout :: "int \<Rightarrow> byte \<Rightarrow> state \<Rightarrow> fault + state" where
  "store_stdout i c s =
     (if 0 \<le> i \<and> i < PICOLIBC_STDOUT_BUFSIZE
      then Inr (emit (Stdout_store (nat i) c)
                  (s\<lparr>picolibc_stdout := (picolibc_stdout s)[nat i := c]\<rparr>))
      else Inl Out_of_bounds)"

subsection \<open>The unsupported entry points\<close>

text \<open>
  \<^verbatim>\<open>int kill(pid_t pid, int sig) { (void) pid; (void) sig; errno = ESRCH; return -1; }\<close>
\<close>

definition kill :: "int \<Rightarrow> int \<Rightarrow> state \<Rightarrow> int \<times> state" where
  "kill pid sig s = (- 1, s\<lparr>errno := ESRCH\<rparr>)"

text \<open>\<^verbatim>\<open>int close(int fd) { (void) fd; errno = ENODEV; return -1; }\<close>\<close>

definition close :: "int \<Rightarrow> state \<Rightarrow> int \<times> state" where
  "close fd s = (- 1, s\<lparr>errno := ENODEV\<rparr>)"

text \<open>
  \<^verbatim>\<open>clock_t times(struct tms *ptms) { (void)ptms; errno = ENOSYS; return (-1); }\<close>
  The result is the source's \<^verbatim>\<open>(-1)\<close>, before its conversion to \<^verbatim>\<open>clock_t\<close>.
\<close>

definition times_syscall :: "nat \<Rightarrow> state \<Rightarrow> int \<times> state" where
  "times_syscall ptms s = (- 1, s\<lparr>errno := ENOSYS\<rparr>)"

subsection \<open>The buffered output\<close>

text \<open>
  \<^verbatim>\<open>static void _picolibc_flush(void)\<close>: when the count is not zero, hand the first
  \<^verbatim>\<open>picolibc_stdout_queued\<close> bytes of the array to \<^verbatim>\<open>stdio_write\<close> (its result is
  dropped) and set the count to 0. The count is converted to \<^verbatim>\<open>size_t\<close>: outside
  1..64 the driver is told to read outside the array.
\<close>

definition u_picolibc_flush :: "collab \<Rightarrow> state \<Rightarrow> fault + state" where
  "u_picolibc_flush env s =
     (let (q, s1) = load_queued s in
      if q \<noteq> 0 then
        (let (n, s2) = load_queued s1 in
         if 0 \<le> n \<and> n \<le> PICOLIBC_STDOUT_BUFSIZE
         then Inr (store_queued 0 (snd (stdio_write env (picolibc_stdout s2) (nat n) s2)))
         else Inl Out_of_bounds)
      else Inr s1)"

text \<open>
  \<^verbatim>\<open>static int picolibc_put(char c, FILE *file)\<close>: lock, store \<^verbatim>\<open>c\<close> at the old count
  and increment the count, flush when the count is 64 or \<^verbatim>\<open>c\<close> is a line feed, unlock,
  return 1.
\<close>

definition picolibc_put :: "collab \<Rightarrow> byte \<Rightarrow> nat \<Rightarrow> state \<Rightarrow> fault + (int \<times> state)" where
  "picolibc_put env c file s =
     (let s1 = mutex_lock s;
          (q, s2) = load_queued s1
      in case store_stdout q c (store_queued (q + 1) s2) of
           Inl e \<Rightarrow> Inl e
         | Inr s3 \<Rightarrow>
             (let (q', s4) = load_queued s3
              in case (if q' = PICOLIBC_STDOUT_BUFSIZE \<or> c = 10
                       then u_picolibc_flush env s4 else Inr s4) of
                   Inl e \<Rightarrow> Inl e
                 | Inr s5 \<Rightarrow> Inr (1, mutex_unlock s5)))"

text \<open>\<^verbatim>\<open>static int picolibc_flush(FILE *file)\<close>: lock, flush, unlock, return 0.\<close>

definition picolibc_flush :: "collab \<Rightarrow> nat \<Rightarrow> state \<Rightarrow> fault + (int \<times> state)" where
  "picolibc_flush env file s =
     (case u_picolibc_flush env (mutex_lock s) of
        Inl e \<Rightarrow> Inl e
      | Inr s1 \<Rightarrow> Inr (0, mutex_unlock s1))"

text \<open>
  \<^verbatim>\<open>static int picolibc_get(FILE *file)\<close>: \<^verbatim>\<open>picolibc_flush(NULL)\<close>, then
  \<^verbatim>\<open>char c = 0; stdio_read(&c, 1); return c;\<close>. When the driver stores nothing,
  \<^verbatim>\<open>c\<close> is still 0.
\<close>

fun stored_char :: "byte \<Rightarrow> byte list \<Rightarrow> byte" where
  "stored_char c [] = c"
| "stored_char c (b # bs) = b"

definition picolibc_get :: "collab \<Rightarrow> nat \<Rightarrow> state \<Rightarrow> fault + (int \<times> state)" where
  "picolibc_get env file s =
     (case picolibc_flush env NULL s of
        Inl e \<Rightarrow> Inl e
      | Inr (r, s1) \<Rightarrow>
          (let (bs, s2) = stdio_read env 1 s1;
               c = stored_char 0 bs
           in Inr (int_of_char env c, s2)))"

text \<open>
  \<^verbatim>\<open>write(int fd, const void *data, size_t count) { (void) fd; return stdio_write(data, count); }\<close>
\<close>

definition write_syscall :: "collab \<Rightarrow> int \<Rightarrow> byte list \<Rightarrow> nat \<Rightarrow> state \<Rightarrow> int \<times> state" where
  "write_syscall env fd data count s = stdio_write env data count s"

subsection \<open>Process exit\<close>

text \<open>
  A call that may never come back is run with fuel: after the given number of loop
  iterations it has either returned, or is still running in the state it has reached.
\<close>

datatype outcome = Returned state | Still_running state

text \<open>\<^verbatim>\<open>while(1);\<close>: the condition is the constant 1 and the body is empty.\<close>

fun while_1 :: "nat \<Rightarrow> state \<Rightarrow> outcome" where
  "while_1 0 s = Still_running s"
| "while_1 (Suc fuel) s = (if (1 :: int) \<noteq> 0 then while_1 fuel s else Returned s)"

text \<open>
  \<^verbatim>\<open>void _exit(int n) { LOG_INFO("#! exit %i: powering off\n", n); pm_off(); while(1); }\<close>
  Here \<^verbatim>\<open>pm_off\<close> comes back, which is the case that needs the loop.
\<close>

definition u_exit :: "nat \<Rightarrow> int \<Rightarrow> state \<Rightarrow> outcome" where
  "u_exit fuel n s = while_1 fuel (pm_off (LOG_INFO n s))"

subsection \<open>Sequences of calls\<close>

text \<open>One \<open>picolibc_put\<close> per byte, in order; a fault ends the run.\<close>

fun puts :: "collab \<Rightarrow> byte list \<Rightarrow> nat \<Rightarrow> state \<Rightarrow> fault + state" where
  "puts env [] file s = Inr s"
| "puts env (c # cs) file s =
     (case picolibc_put env c file s of
        Inl e \<Rightarrow> Inl e
      | Inr (r, s') \<Rightarrow> puts env cs file s')"

text \<open>
  The three operations of the stream as calls, and a run of them one after the other;
  a fault ends the run.
\<close>

datatype call = Put byte | Flush | Get

fun do_call :: "collab \<Rightarrow> call \<Rightarrow> state \<Rightarrow> fault + state" where
  "do_call env (Put c) s =
     (case picolibc_put env c NULL s of Inl e \<Rightarrow> Inl e | Inr (r, s') \<Rightarrow> Inr s')"
| "do_call env Flush s =
     (case picolibc_flush env NULL s of Inl e \<Rightarrow> Inl e | Inr (r, s') \<Rightarrow> Inr s')"
| "do_call env Get s =
     (case picolibc_get env NULL s of Inl e \<Rightarrow> Inl e | Inr (r, s') \<Rightarrow> Inr s')"

fun do_calls :: "collab \<Rightarrow> call list \<Rightarrow> state \<Rightarrow> fault + state" where
  "do_calls env [] s = Inr s"
| "do_calls env (c # cs) s =
     (case do_call env c s of Inl e \<Rightarrow> Inl e | Inr s' \<Rightarrow> do_calls env cs s')"

subsection \<open>Threads\<close>

text \<open>
  For callers that run at the same time, the three functions are cut at their
  statements. A thread's continuation is the list of statements it still has to
  execute:
  \<^item> \<open>I_mutex_lock\<close>, \<open>I_mutex_unlock\<close>: \<^verbatim>\<open>mutex_lock(&picolibc_put_mutex)\<close>, \<^verbatim>\<open>mutex_unlock(...)\<close>;
  \<^item> \<open>I_put_store c\<close>: \<^verbatim>\<open>picolibc_stdout[picolibc_stdout_queued++] = c;\<close>
  \<^item> \<open>I_put_test c\<close>: \<^verbatim>\<open>if (picolibc_stdout_queued == PICOLIBC_STDOUT_BUFSIZE || c == '\n')\<close>,
    which goes on with \<^verbatim>\<open>_picolibc_flush()\<close> or not;
  \<^item> \<open>I_flush_test\<close>: \<^verbatim>\<open>if (picolibc_stdout_queued)\<close> of \<^verbatim>\<open>_picolibc_flush\<close>;
  \<^item> \<open>I_flush_write\<close>: \<^verbatim>\<open>stdio_write(picolibc_stdout, picolibc_stdout_queued);\<close>
  \<^item> \<open>I_flush_reset\<close>: \<^verbatim>\<open>picolibc_stdout_queued = 0;\<close>
  \<^item> \<open>I_stdio_read\<close>: \<^verbatim>\<open>stdio_read(&c, 1);\<close>
\<close>

datatype instr =
    I_mutex_lock
  | I_mutex_unlock
  | I_put_store byte
  | I_put_test byte
  | I_flush_test
  | I_flush_write
  | I_flush_reset
  | I_stdio_read

text \<open>
  The bodies of \<^verbatim>\<open>picolibc_put\<close>, \<^verbatim>\<open>picolibc_flush\<close> and \<^verbatim>\<open>picolibc_get\<close> (which calls
  \<^verbatim>\<open>picolibc_flush\<close> and then reads).
\<close>

definition put_code :: "byte \<Rightarrow> instr list" where
  "put_code c = [I_mutex_lock, I_put_store c, I_put_test c, I_mutex_unlock]"

definition flush_code :: "instr list" where
  "flush_code = [I_mutex_lock, I_flush_test, I_mutex_unlock]"

definition get_code :: "instr list" where
  "get_code = flush_code @ [I_stdio_read]"

fun code_of :: "call \<Rightarrow> instr list" where
  "code_of (Put c) = put_code c"
| "code_of Flush = flush_code"
| "code_of Get = get_code"

text \<open>
  One statement, on the shared state: the statements to go on with (those of the
  branch taken) and the new state. The statements are made of the same accesses and
  collaborator calls as the functions above.
\<close>

fun thread_step :: "collab \<Rightarrow> instr \<Rightarrow> state \<Rightarrow> fault + (instr list \<times> state)" where
  "thread_step env I_mutex_lock s = Inr ([], mutex_lock s)"
| "thread_step env I_mutex_unlock s = Inr ([], mutex_unlock s)"
| "thread_step env (I_put_store c) s =
     (let (q, s1) = load_queued s
      in case store_stdout q c (store_queued (q + 1) s1) of
           Inl e \<Rightarrow> Inl e
         | Inr s2 \<Rightarrow> Inr ([], s2))"
| "thread_step env (I_put_test c) s =
     (let (q, s1) = load_queued s
      in Inr (if q = PICOLIBC_STDOUT_BUFSIZE \<or> c = 10 then [I_flush_test] else [], s1))"
| "thread_step env I_flush_test s =
     (let (q, s1) = load_queued s
      in Inr (if q \<noteq> 0 then [I_flush_write, I_flush_reset] else [], s1))"
| "thread_step env I_flush_write s =
     (let (n, s1) = load_queued s
      in if 0 \<le> n \<and> n \<le> PICOLIBC_STDOUT_BUFSIZE
         then Inr ([], snd (stdio_write env (picolibc_stdout s1) (nat n) s1))
         else Inl Out_of_bounds)"
| "thread_step env I_flush_reset s = Inr ([], store_queued 0 s)"
| "thread_step env I_stdio_read s = Inr ([], snd (stdio_read env 1 s))"

text \<open>
  A thread alone: at most \<open>k\<close> statements of a continuation, one after the other.
\<close>

fun exec :: "collab \<Rightarrow> nat \<Rightarrow> instr list \<Rightarrow> state \<Rightarrow> fault + (instr list \<times> state)" where
  "exec env 0 code s = Inr (code, s)"
| "exec env (Suc k) [] s = Inr ([], s)"
| "exec env (Suc k) (i # rest) s =
     (case thread_step env i s of
        Inl e \<Rightarrow> Inl e
      | Inr (pre, s') \<Rightarrow> exec env k (pre @ rest) s')"

text \<open>
  The system: the shared state, the thread that holds \<^verbatim>\<open>picolibc_put_mutex\<close> (if any),
  every thread's continuation, and who did what, in order.
\<close>

record sys =
  shared :: state
  holder :: "nat option"
  conts :: "nat \<Rightarrow> instr list"
  history :: "(nat \<times> event) list"

text \<open>
  Modelled from the spec: the mutex of \<^verbatim>\<open>mutex.h\<close>; \<^verbatim>\<open>mutex_lock\<close> waits while a
  caller holds the mutex and then makes its own caller the holder, \<^verbatim>\<open>mutex_unlock\<close>
  frees the mutex.
  Thread \<open>t\<close> executes its next statement. It cannot when it has none, or when the
  statement is \<open>I_mutex_lock\<close> and the mutex is held.
\<close>

datatype step_result = Blocked | Faulted fault | Step sys

definition sys_step :: "collab \<Rightarrow> nat \<Rightarrow> sys \<Rightarrow> step_result" where
  "sys_step env t \<sigma> =
     (case conts \<sigma> t of
        [] \<Rightarrow> Blocked
      | i # rest \<Rightarrow>
          if i = I_mutex_lock \<and> holder \<sigma> \<noteq> None then Blocked
          else (case thread_step env i (shared \<sigma>) of
                  Inl e \<Rightarrow> Faulted e
                | Inr (pre, s') \<Rightarrow>
                    Step \<lparr>shared = s',
                          holder = (if i = I_mutex_lock then Some t
                                    else if i = I_mutex_unlock then None
                                    else holder \<sigma>),
                          conts = (conts \<sigma>)(t := pre @ rest),
                          history = history \<sigma> @ map (Pair t) (new_events (shared \<sigma>) s')\<rparr>))"

text \<open>
  A schedule names the thread of each step.
\<close>

fun run :: "collab \<Rightarrow> nat list \<Rightarrow> sys \<Rightarrow> step_result" where
  "run env [] \<sigma> = Step \<sigma>"
| "run env (t # ts) \<sigma> =
     (case sys_step env t \<sigma> of
        Step \<sigma>' \<Rightarrow> run env ts \<sigma>'
      | Blocked \<Rightarrow> Blocked
      | Faulted e \<Rightarrow> Faulted e)"

text \<open>
  At the start no thread holds the mutex and thread \<open>t\<close> is about to make the calls
  \<open>calls t\<close>, one after the other.
\<close>

definition start :: "(nat \<Rightarrow> call list) \<Rightarrow> state \<Rightarrow> sys" where
  "start calls s =
     \<lparr>shared = s, holder = None, conts = (\<lambda>t. concat (map code_of (calls t))), history = []\<rparr>"

subsection \<open>Observations\<close>

text \<open>The byte sequences handed to \<^verbatim>\<open>stdio_write\<close>, one per call, in order.\<close>

fun writes_of :: "event list \<Rightarrow> byte list list" where
  "writes_of [] = []"
| "writes_of (Stdio_write data len # es) = take len data # writes_of es"
| "writes_of (e # es) = writes_of es"

text \<open>The bytes that sit in the buffer, waiting for a flush.\<close>

definition pending :: "state \<Rightarrow> byte list" where
  "pending s = take (nat (picolibc_stdout_queued s)) (picolibc_stdout s)"

text \<open>
  The state of the statics between two calls: the array has its 64 bytes and the count
  is a valid index.
\<close>

definition wf :: "state \<Rightarrow> bool" where
  "wf s \<longleftrightarrow> length (picolibc_stdout s) = 64
            \<and> 0 \<le> picolibc_stdout_queued s \<and> picolibc_stdout_queued s < PICOLIBC_STDOUT_BUFSIZE"

text \<open>The state at start-up: zeroed statics, nothing has happened.\<close>

definition init_state :: state where
  "init_state = \<lparr>picolibc_stdout = replicate 64 0, picolibc_stdout_queued = 0,
                  errno = Errno_zero, tms_mem = (\<lambda>a. None), trace = []\<rparr>"

text \<open>The values assigned to the count, and the indices stored to in the array.\<close>

fun stored_counts :: "event list \<Rightarrow> int list" where
  "stored_counts [] = []"
| "stored_counts (Queued_store v # es) = v # stored_counts es"
| "stored_counts (e # es) = stored_counts es"

fun store_indices :: "event list \<Rightarrow> nat list" where
  "store_indices [] = []"
| "store_indices (Stdout_store i c # es) = i # store_indices es"
| "store_indices (e # es) = store_indices es"

text \<open>
  The locking discipline of the events of one caller, given whether the mutex is held
  at their start: the mutex is locked only when free and unlocked only when held, and
  every access to the two statics and every call to the channel driver happens while it
  is held.
\<close>

fun guarded :: "bool \<Rightarrow> event list \<Rightarrow> bool" where
  "guarded h [] = True"
| "guarded h (Mutex_lock # es) = (\<not> h \<and> guarded True es)"
| "guarded h (Mutex_unlock # es) = (h \<and> guarded False es)"
| "guarded h (Log_info n # es) = guarded h es"
| "guarded h (Pm_off # es) = guarded h es"
| "guarded h (e # es) = (h \<and> guarded h es)"

text \<open>Whether the mutex is held after a run of events.\<close>

fun held_after :: "bool \<Rightarrow> event list \<Rightarrow> bool" where
  "held_after h [] = h"
| "held_after h (Mutex_lock # es) = held_after True es"
| "held_after h (Mutex_unlock # es) = held_after False es"
| "held_after h (e # es) = held_after h es"

text \<open>
  The same discipline for several callers, given the holder at the start: a thread locks
  only when the mutex is free, only the holder unlocks, and every access to the two
  statics and every call to \<^verbatim>\<open>stdio_write\<close> is made by the holder. Calls to
  \<^verbatim>\<open>stdio_read\<close> are left free.
\<close>

fun disciplined :: "nat option \<Rightarrow> (nat \<times> event) list \<Rightarrow> bool" where
  "disciplined h [] = True"
| "disciplined h ((t, Mutex_lock) # es) = (h = None \<and> disciplined (Some t) es)"
| "disciplined h ((t, Mutex_unlock) # es) = (h = Some t \<and> disciplined None es)"
| "disciplined h ((t, Stdio_read len) # es) = disciplined h es"
| "disciplined h ((t, Log_info n) # es) = disciplined h es"
| "disciplined h ((t, Pm_off) # es) = disciplined h es"
| "disciplined h ((t, e) # es) = (h = Some t \<and> disciplined h es)"

fun holder_after :: "nat option \<Rightarrow> (nat \<times> event) list \<Rightarrow> nat option" where
  "holder_after h [] = h"
| "holder_after h ((t, Mutex_lock) # es) = holder_after (Some t) es"
| "holder_after h ((t, Mutex_unlock) # es) = holder_after None es"
| "holder_after h (e # es) = holder_after h es"

text \<open>
  The events and statements that touch the statics or write to the channel.
\<close>

fun needs_guard :: "event \<Rightarrow> bool" where
  "needs_guard Queued_load = True"
| "needs_guard (Queued_store v) = True"
| "needs_guard (Stdout_store i c) = True"
| "needs_guard (Stdio_write data len) = True"
| "needs_guard e = False"

fun touches :: "instr \<Rightarrow> bool" where
  "touches I_mutex_lock = False"
| "touches I_mutex_unlock = False"
| "touches I_stdio_read = False"
| "touches i = True"

text \<open>
  A continuation that fits the state of the mutex (held by its thread or not): it
  unlocks before it locks again or ends exactly when the mutex is held, touches the
  statics only while it is held, and reads the channel only while it is not.
\<close>

fun well_locked :: "bool \<Rightarrow> instr list \<Rightarrow> bool" where
  "well_locked h [] = (\<not> h)"
| "well_locked h (I_mutex_lock # r) = (\<not> h \<and> well_locked True r)"
| "well_locked h (I_mutex_unlock # r) = (h \<and> well_locked False r)"
| "well_locked h (I_stdio_read # r) = (\<not> h \<and> well_locked False r)"
| "well_locked h (i # r) = (h \<and> well_locked h r)"

text \<open>
  A thread is in the guarded part of a call when its next statement touches the statics,
  writes to the channel, or unlocks.
\<close>

fun in_guard :: "instr list \<Rightarrow> bool" where
  "in_guard [] = False"
| "in_guard (I_mutex_lock # r) = False"
| "in_guard (I_stdio_read # r) = False"
| "in_guard (i # r) = True"

text \<open>
  What holds of every state of the system that a schedule reaches.
\<close>

definition locked_right :: "sys \<Rightarrow> bool" where
  "locked_right \<sigma> \<longleftrightarrow>
     (\<forall>t. well_locked (holder \<sigma> = Some t) (conts \<sigma> t))
     \<and> disciplined None (history \<sigma>)
     \<and> holder_after None (history \<sigma>) = holder \<sigma>"

text \<open>
  The shapes of continuations outside and inside the guarded part, with the values the
  count can have there.
\<close>

definition idle_shape :: "instr list \<Rightarrow> bool" where
  "idle_shape code \<longleftrightarrow>
     (\<exists>cs. code = concat (map code_of cs) \<or> code = I_stdio_read # concat (map code_of cs))"

definition fits :: "int \<Rightarrow> instr list \<Rightarrow> bool" where
  "fits q code \<longleftrightarrow>
     (\<exists>r. idle_shape r \<and>
        ((\<exists>c. code = I_put_store c # I_put_test c # I_mutex_unlock # r \<and> 0 \<le> q \<and> q < 64)
       \<or> (\<exists>c. code = I_put_test c # I_mutex_unlock # r \<and> 0 < q \<and> q \<le> 64)
       \<or> (code = I_flush_test # I_mutex_unlock # r \<and> 0 \<le> q \<and> q \<le> 64)
       \<or> (code = I_flush_write # I_flush_reset # I_mutex_unlock # r \<and> 0 \<le> q \<and> q \<le> 64)
       \<or> (code = I_flush_reset # I_mutex_unlock # r \<and> 0 \<le> q \<and> q \<le> 64)
       \<or> (code = I_mutex_unlock # r \<and> 0 \<le> q \<and> q < 64)))"

definition sane :: "sys \<Rightarrow> bool" where
  "sane \<sigma> \<longleftrightarrow>
     length (picolibc_stdout (shared \<sigma>)) = 64
     \<and> (\<forall>t. if holder \<sigma> = Some t
             then fits (picolibc_stdout_queued (shared \<sigma>)) (conts \<sigma> t)
             else idle_shape (conts \<sigma> t))
     \<and> (holder \<sigma> = None \<longrightarrow>
          0 \<le> picolibc_stdout_queued (shared \<sigma>) \<and> picolibc_stdout_queued (shared \<sigma>) < 64)"

text \<open>A driver for examples: it writes all it is given and always has the byte 65 to read.\<close>

definition uart_env :: collab where
  "uart_env = \<lparr>stdio_write_ret = (\<lambda>tr data len. int len),
                stdio_read_data = (\<lambda>tr len. replicate len 65),
                char_is_signed = False\<rparr>"

text \<open>The start-up state after the bytes 72 and 105 have been put.\<close>

definition queued_hi :: state where
  "queued_hi =
     \<lparr>picolibc_stdout = (replicate 64 0)[0 := 72, 1 := 105], picolibc_stdout_queued = 2,
      errno = Errno_zero, tms_mem = (\<lambda>a. None),
      trace = [Mutex_lock, Queued_load, Queued_store 1, Stdout_store 0 72, Queued_load,
               Mutex_unlock,
               Mutex_lock, Queued_load, Queued_store 2, Stdout_store 1 105, Queued_load,
               Mutex_unlock]\<rparr>"

text \<open>
  Two threads that each call \<open>picolibc_get\<close>, and the state in which both have flushed
  and neither has read yet; a thread that puts a line feed beside one that gets.
\<close>

definition two_getters :: "nat \<Rightarrow> call list" where
  "two_getters t = (if t < 2 then [Get] else [])"

definition both_in_get :: sys where
  "both_in_get =
     \<lparr>shared = init_state\<lparr>trace := [Mutex_lock, Queued_load, Mutex_unlock,
                                    Mutex_lock, Queued_load, Mutex_unlock]\<rparr>,
      holder = None,
      conts = (\<lambda>t. if t < 2 then [I_stdio_read] else []),
      history = [(0, Mutex_lock), (0, Queued_load), (0, Mutex_unlock),
                 (1, Mutex_lock), (1, Queued_load), (1, Mutex_unlock)]\<rparr>"

definition put_and_get :: "nat \<Rightarrow> call list" where
  "put_and_get t = (if t = 0 then [Put 10] else if t = 1 then [Get] else [])"

section \<open>Properties\<close>

subsection \<open>The buffered output, call by call\<close>

lemmas prim_defs = load_queued_def store_queued_def store_stdout_def stdio_write_def
  stdio_read_def mutex_lock_def mutex_unlock_def emit_def PICOLIBC_STDOUT_BUFSIZE_def

lemma u_flush_nonempty:
  "0 < picolibc_stdout_queued s \<Longrightarrow> picolibc_stdout_queued s \<le> 64 \<Longrightarrow>
   u_picolibc_flush env s =
     Inr (s\<lparr>picolibc_stdout_queued := 0,
            trace := trace s @ [Queued_load, Queued_load,
                       Stdio_write (picolibc_stdout s) (nat (picolibc_stdout_queued s)),
                       Queued_store 0]\<rparr>)"
  by (simp add: u_picolibc_flush_def prim_defs)

lemma u_flush_empty:
  "picolibc_stdout_queued s = 0 \<Longrightarrow>
   u_picolibc_flush env s = Inr (s\<lparr>trace := trace s @ [Queued_load]\<rparr>)"
  by (simp add: u_picolibc_flush_def prim_defs)

lemma put_queueing:
  "wf s \<Longrightarrow> picolibc_stdout_queued s \<noteq> 63 \<Longrightarrow> c \<noteq> 10 \<Longrightarrow>
   picolibc_put env c file s =
     Inr (1, s\<lparr>picolibc_stdout := (picolibc_stdout s)[nat (picolibc_stdout_queued s) := c],
               picolibc_stdout_queued := picolibc_stdout_queued s + 1,
               trace := trace s @ [Mutex_lock, Queued_load,
                          Queued_store (picolibc_stdout_queued s + 1),
                          Stdout_store (nat (picolibc_stdout_queued s)) c,
                          Queued_load, Mutex_unlock]\<rparr>)"
  by (simp add: picolibc_put_def wf_def prim_defs)

lemma put_flushing:
  "wf s \<Longrightarrow> picolibc_stdout_queued s = 63 \<or> c = 10 \<Longrightarrow>
   picolibc_put env c file s =
     Inr (1, s\<lparr>picolibc_stdout := (picolibc_stdout s)[nat (picolibc_stdout_queued s) := c],
               picolibc_stdout_queued := 0,
               trace := trace s @ [Mutex_lock, Queued_load,
                          Queued_store (picolibc_stdout_queued s + 1),
                          Stdout_store (nat (picolibc_stdout_queued s)) c,
                          Queued_load, Queued_load, Queued_load,
                          Stdio_write ((picolibc_stdout s)[nat (picolibc_stdout_queued s) := c])
                            (nat (picolibc_stdout_queued s + 1)),
                          Queued_store 0, Mutex_unlock]\<rparr>)"
  by (auto simp add: picolibc_put_def wf_def prim_defs u_picolibc_flush_def)

lemma writes_of_append: "writes_of (xs @ ys) = writes_of xs @ writes_of ys"
  by (induction xs rule: writes_of.induct) simp_all

lemma stored_counts_append: "stored_counts (xs @ ys) = stored_counts xs @ stored_counts ys"
  by (induction xs rule: stored_counts.induct) simp_all

lemma store_indices_append: "store_indices (xs @ ys) = store_indices xs @ store_indices ys"
  by (induction xs rule: store_indices.induct) simp_all

lemma new_events_eq: "trace s' = trace s @ evs \<Longrightarrow> new_events s s' = evs"
  by (simp add: new_events_def)

lemma take_Suc_update:
  "n < length xs \<Longrightarrow> take (Suc n) (xs[n := x]) = take n xs @ [x]"
  by (simp add: take_Suc_conv_app_nth)

lemma pending_after_store:
  assumes "wf s"
  shows "take (nat (picolibc_stdout_queued s + 1))
           ((picolibc_stdout s)[nat (picolibc_stdout_queued s) := c]) = pending s @ [c]"
proof -
  from assms have n: "nat (picolibc_stdout_queued s) < length (picolibc_stdout s)"
    and q: "0 \<le> picolibc_stdout_queued s"
    by (auto simp add: wf_def PICOLIBC_STDOUT_BUFSIZE_def)
  from q have "nat (picolibc_stdout_queued s + 1) = Suc (nat (picolibc_stdout_queued s))"
    by simp
  with n show ?thesis by (simp add: take_Suc_update pending_def)
qed

lemma put_step:
  assumes "wf s"
  shows "\<exists>s' evs. picolibc_put env c file s = Inr (1, s') \<and> wf s' \<and> trace s' = trace s @ evs
     \<and> list_all (\<lambda>v. 0 \<le> v \<and> v \<le> PICOLIBC_STDOUT_BUFSIZE) (stored_counts evs)
     \<and> list_all (\<lambda>i. int i < PICOLIBC_STDOUT_BUFSIZE) (store_indices evs)
     \<and> concat (writes_of evs) @ pending s' = pending s @ [c]"
proof (cases "picolibc_stdout_queued s = 63 \<or> c = 10")
  case True
  from assms have b: "0 \<le> picolibc_stdout_queued s" "picolibc_stdout_queued s < 64"
    by (simp_all add: wf_def PICOLIBC_STDOUT_BUFSIZE_def)
  show ?thesis
    apply (subst put_flushing [OF assms True])
    apply (intro exI conjI)
         apply (rule refl)
    using assms b apply (simp add: wf_def PICOLIBC_STDOUT_BUFSIZE_def)
       apply simp
    using b apply (simp add: PICOLIBC_STDOUT_BUFSIZE_def)
    using b apply (simp add: PICOLIBC_STDOUT_BUFSIZE_def)
    using pending_after_store [OF assms, of c] apply (simp add: pending_def)
    done
next
  case False
  from assms have b: "0 \<le> picolibc_stdout_queued s" "picolibc_stdout_queued s < 64"
    by (simp_all add: wf_def PICOLIBC_STDOUT_BUFSIZE_def)
  from False have f: "picolibc_stdout_queued s \<noteq> 63" "c \<noteq> 10" by simp_all
  show ?thesis
    apply (subst put_queueing [OF assms f])
    apply (intro exI conjI)
         apply (rule refl)
    using assms b f apply (simp add: wf_def PICOLIBC_STDOUT_BUFSIZE_def)
       apply simp
    using b apply (simp add: PICOLIBC_STDOUT_BUFSIZE_def)
    using b apply (simp add: PICOLIBC_STDOUT_BUFSIZE_def)
    using pending_after_store [OF assms, of c] apply (simp add: pending_def)
    done
qed

lemma puts_run:
  "wf s \<Longrightarrow>
   \<exists>s' evs. puts env cs file s = Inr s' \<and> wf s' \<and> trace s' = trace s @ evs
     \<and> list_all (\<lambda>v. 0 \<le> v \<and> v \<le> PICOLIBC_STDOUT_BUFSIZE) (stored_counts evs)
     \<and> list_all (\<lambda>i. int i < PICOLIBC_STDOUT_BUFSIZE) (store_indices evs)
     \<and> concat (writes_of evs) @ pending s' = pending s @ cs"
proof (induction cs arbitrary: s)
  case Nil
  then show ?case by simp
next
  case (Cons c cs)
  from put_step [OF Cons.prems, of env c "file"]
  obtain s1 e1 where p: "picolibc_put env c file s = Inr (1, s1)" and w1: "wf s1"
    and t1: "trace s1 = trace s @ e1"
    and c1: "list_all (\<lambda>v. 0 \<le> v \<and> v \<le> PICOLIBC_STDOUT_BUFSIZE) (stored_counts e1)"
    and i1: "list_all (\<lambda>i. int i < PICOLIBC_STDOUT_BUFSIZE) (store_indices e1)"
    and b1: "concat (writes_of e1) @ pending s1 = pending s @ [c]"
    by blast
  from Cons.IH [OF w1]
  obtain s2 e2 where q: "puts env cs file s1 = Inr s2" and w2: "wf s2"
    and t2: "trace s2 = trace s1 @ e2"
    and c2: "list_all (\<lambda>v. 0 \<le> v \<and> v \<le> PICOLIBC_STDOUT_BUFSIZE) (stored_counts e2)"
    and i2: "list_all (\<lambda>i. int i < PICOLIBC_STDOUT_BUFSIZE) (store_indices e2)"
    and b2: "concat (writes_of e2) @ pending s2 = pending s1 @ cs"
    by blast
  have "concat (writes_of (e1 @ e2)) @ pending s2
          = concat (writes_of e1) @ (concat (writes_of e2) @ pending s2)"
    by (simp add: writes_of_append)
  also have "\<dots> = (concat (writes_of e1) @ pending s1) @ cs"
    by (simp add: b2)
  also have "\<dots> = pending s @ c # cs"
    by (simp add: b1)
  finally have b: "concat (writes_of (e1 @ e2)) @ pending s2 = pending s @ c # cs" .
  show ?case
    apply (rule exI [of _ s2], rule exI [of _ "e1 @ e2"])
    using p q w2 t1 t2 c1 c2 i1 i2 b
    apply (simp add: stored_counts_append store_indices_append)
    done
qed

lemma puts_append:
  "puts env (xs @ ys) file s =
     (case puts env xs file s of Inl e \<Rightarrow> Inl e | Inr s1 \<Rightarrow> puts env ys file s1)"
  by (induction xs arbitrary: s) (auto split: sum.splits)

lemma puts_quiet:
  "wf s \<Longrightarrow> picolibc_stdout_queued s + int (length cs) < 64 \<Longrightarrow> 10 \<notin> set cs \<Longrightarrow>
   \<exists>s' evs. puts env cs file s = Inr s' \<and> wf s' \<and> trace s' = trace s @ evs
     \<and> writes_of evs = []
     \<and> picolibc_stdout_queued s' = picolibc_stdout_queued s + int (length cs)
     \<and> pending s' = pending s @ cs"
proof (induction cs arbitrary: s)
  case Nil
  then show ?case by simp
next
  case (Cons c cs)
  let ?s1 = "s\<lparr>picolibc_stdout := (picolibc_stdout s)[nat (picolibc_stdout_queued s) := c],
               picolibc_stdout_queued := picolibc_stdout_queued s + 1,
               trace := trace s @ [Mutex_lock, Queued_load,
                          Queued_store (picolibc_stdout_queued s + 1),
                          Stdout_store (nat (picolibc_stdout_queued s)) c,
                          Queued_load, Mutex_unlock]\<rparr>"
  from Cons.prems have f: "picolibc_stdout_queued s \<noteq> 63" "c \<noteq> 10" by auto
  have p: "picolibc_put env c file s = Inr (1, ?s1)"
    by (rule put_queueing [OF Cons.prems(1) f])
  from Cons.prems have w1: "wf ?s1"
    by (simp add: wf_def PICOLIBC_STDOUT_BUFSIZE_def)
  have p1: "pending ?s1 = pending s @ [c]"
    using pending_after_store [OF Cons.prems(1), of c] by (simp add: pending_def)
  from Cons.prems have "picolibc_stdout_queued ?s1 + int (length cs) < 64" "10 \<notin> set cs"
    by simp_all
  from Cons.IH [OF w1 this]
  obtain s2 e2 where q: "puts env cs file ?s1 = Inr s2" and w2: "wf s2"
    and t2: "trace s2 = trace ?s1 @ e2" and n2: "writes_of e2 = []"
    and c2: "picolibc_stdout_queued s2 = picolibc_stdout_queued ?s1 + int (length cs)"
    and b2: "pending s2 = pending ?s1 @ cs"
    by blast
  show ?case
    apply (rule exI [of _ s2])
    apply (rule exI [of _ "[Mutex_lock, Queued_load,
                          Queued_store (picolibc_stdout_queued s + 1),
                          Stdout_store (nat (picolibc_stdout_queued s)) c,
                          Queued_load, Mutex_unlock] @ e2"])
    using p q w2 t2 n2 c2 b2 p1
    apply (simp add: writes_of_append)
    done
qed

lemma puts_fill:
  assumes w: "wf s" and full: "picolibc_stdout_queued s + int (length cs) = 64"
    and nl: "10 \<notin> set cs"
  shows "\<exists>s' evs. puts env cs file s = Inr s' \<and> trace s' = trace s @ evs
     \<and> writes_of evs = [pending s @ cs] \<and> picolibc_stdout_queued s' = 0"
proof -
  from w full have ne: "cs \<noteq> []"
    by (auto simp add: wf_def PICOLIBC_STDOUT_BUFSIZE_def)
  then have split: "cs = butlast cs @ [last cs]" by simp
  from ne full have "picolibc_stdout_queued s + int (length (butlast cs)) = 63"
    by (simp add: Suc_leI)
  moreover from nl have "10 \<notin> set (butlast cs)"
    by (auto dest: in_set_butlastD)
  ultimately obtain s1 e1 where q: "puts env (butlast cs) file s = Inr s1" and w1: "wf s1"
    and t1: "trace s1 = trace s @ e1" and n1: "writes_of e1 = []"
    and c1: "picolibc_stdout_queued s1 = 63"
    and b1: "pending s1 = pending s @ butlast cs"
    using puts_quiet [OF w, of "butlast cs" env "file"] by auto
  let ?e2 = "[Mutex_lock, Queued_load,
                          Queued_store (picolibc_stdout_queued s1 + 1),
                          Stdout_store (nat (picolibc_stdout_queued s1)) (last cs),
                          Queued_load, Queued_load, Queued_load,
                          Stdio_write ((picolibc_stdout s1)[nat (picolibc_stdout_queued s1) := last cs])
                            (nat (picolibc_stdout_queued s1 + 1)),
                          Queued_store 0, Mutex_unlock]"
  let ?s2 = "s1\<lparr>picolibc_stdout := (picolibc_stdout s1)[nat (picolibc_stdout_queued s1) := last cs],
               picolibc_stdout_queued := 0,
               trace := trace s1 @ ?e2\<rparr>"
  have p: "picolibc_put env (last cs) file s1 = Inr (1, ?s2)"
    by (rule put_flushing [OF w1]) (simp add: c1)
  have "puts env (butlast cs @ [last cs]) file s = Inr ?s2"
    by (simp add: puts_append q p)
  with split have r: "puts env cs file s = Inr ?s2" by simp
  have "writes_of (e1 @ ?e2) = [pending s1 @ [last cs]]"
    using pending_after_store [OF w1, of "last cs"] n1 by (simp add: writes_of_append)
  also have "pending s1 @ [last cs] = pending s @ cs"
    using b1 split by (metis append_assoc)
  finally have wr: "writes_of (e1 @ ?e2) = [pending s @ cs]" .
  show ?thesis
    apply (rule exI [of _ ?s2], rule exI [of _ "e1 @ ?e2"])
    using r wr t1 apply simp
    done
qed

lemma flush_empty:
  "picolibc_stdout_queued s = 0 \<Longrightarrow>
   picolibc_flush env file s =
     Inr (0, s\<lparr>trace := trace s @ [Mutex_lock, Queued_load, Mutex_unlock]\<rparr>)"
  by (simp add: picolibc_flush_def u_picolibc_flush_def prim_defs)

lemma flush_nonempty:
  "0 < picolibc_stdout_queued s \<Longrightarrow> picolibc_stdout_queued s \<le> 64 \<Longrightarrow>
   picolibc_flush env file s =
     Inr (0, s\<lparr>picolibc_stdout_queued := 0,
               trace := trace s @ [Mutex_lock, Queued_load, Queued_load,
                          Stdio_write (picolibc_stdout s) (nat (picolibc_stdout_queued s)),
                          Queued_store 0, Mutex_unlock]\<rparr>)"
  by (simp add: picolibc_flush_def u_picolibc_flush_def prim_defs)

lemma get_empty:
  "picolibc_stdout_queued s = 0 \<Longrightarrow>
   picolibc_get env file s =
     Inr (int_of_char env (stored_char 0 (take 1 (stdio_read_data env
                 (trace s @ [Mutex_lock, Queued_load, Mutex_unlock]) 1))),
          s\<lparr>trace := trace s @ [Mutex_lock, Queued_load, Mutex_unlock, Stdio_read 1]\<rparr>)"
  by (simp add: picolibc_get_def flush_empty stdio_read_def emit_def)

lemma get_nonempty:
  "0 < picolibc_stdout_queued s \<Longrightarrow> picolibc_stdout_queued s \<le> 64 \<Longrightarrow>
   picolibc_get env file s =
     Inr (int_of_char env (stored_char 0 (take 1 (stdio_read_data env
                 (trace s @ [Mutex_lock, Queued_load, Queued_load,
                          Stdio_write (picolibc_stdout s) (nat (picolibc_stdout_queued s)),
                          Queued_store 0, Mutex_unlock]) 1))),
          s\<lparr>picolibc_stdout_queued := 0,
            trace := trace s @ [Mutex_lock, Queued_load, Queued_load,
                          Stdio_write (picolibc_stdout s) (nat (picolibc_stdout_queued s)),
                          Queued_store 0, Mutex_unlock, Stdio_read 1]\<rparr>)"
  by (simp add: picolibc_get_def flush_nonempty stdio_read_def emit_def)

lemma wf_init_state: "wf init_state"
  by (simp add: wf_def init_state_def PICOLIBC_STDOUT_BUFSIZE_def)

lemma pending_init_state: "pending init_state = []"
  by (simp add: pending_def init_state_def)

subsection \<open>The buffered output, sequences of calls\<close>

text \<open>
  C1: from a state between two calls (array of 64 bytes, count from 0 to 63; the
  start-up state is one), every sequence of \<open>picolibc_put\<close> calls runs without a fault and
  ends in such a state again. Every value the count is ever assigned, also inside a call,
  lies between 0 and the capacity 64, and every store into the array is to an index below
  64. No byte is lost: what was handed to \<open>stdio_write\<close>, followed by what is still
  queued, is what was queued before followed by the bytes put. A sequence without line
  feed that brings the count to exactly 64 ends in one \<open>stdio_write\<close> of all 64 bytes
  and the count 0.
\<close>

theorem count_within_capacity:
  assumes "wf s"
  shows "\<exists>s'. puts env cs file s = Inr s' \<and> wf s'
     \<and> list_all (\<lambda>v. 0 \<le> v \<and> v \<le> PICOLIBC_STDOUT_BUFSIZE) (stored_counts (new_events s s'))
     \<and> list_all (\<lambda>i. int i < PICOLIBC_STDOUT_BUFSIZE) (store_indices (new_events s s'))
     \<and> concat (writes_of (new_events s s')) @ pending s' = pending s @ cs
     \<and> (picolibc_stdout_queued s + int (length cs) = PICOLIBC_STDOUT_BUFSIZE \<and> 10 \<notin> set cs
          \<longrightarrow> picolibc_stdout_queued s' = 0
              \<and> writes_of (new_events s s') = [pending s @ cs])"
proof -
  from puts_run [OF assms, of env cs "file"]
  obtain s' evs where r: "puts env cs file s = Inr s'" and w: "wf s'"
    and t: "trace s' = trace s @ evs"
    and c: "list_all (\<lambda>v. 0 \<le> v \<and> v \<le> PICOLIBC_STDOUT_BUFSIZE) (stored_counts evs)"
    and i: "list_all (\<lambda>i. int i < PICOLIBC_STDOUT_BUFSIZE) (store_indices evs)"
    and b: "concat (writes_of evs) @ pending s' = pending s @ cs"
    by blast
  have n: "new_events s s' = evs" by (rule new_events_eq [OF t])
  have "picolibc_stdout_queued s' = 0 \<and> writes_of evs = [pending s @ cs]"
    if "picolibc_stdout_queued s + int (length cs) = PICOLIBC_STDOUT_BUFSIZE" "10 \<notin> set cs"
  proof -
    from that have "picolibc_stdout_queued s + int (length cs) = 64"
      by (simp add: PICOLIBC_STDOUT_BUFSIZE_def)
    from puts_fill [OF assms this that(2), of env "file"] r t show ?thesis by auto
  qed
  with r w c i b n show ?thesis by simp
qed

theorem count_within_capacity_witness:
  "wf init_state
   \<and> (\<exists>s'. puts uart_env (replicate 64 65) NULL init_state = Inr s'
          \<and> picolibc_stdout_queued s' = 0
          \<and> writes_of (new_events init_state s') = [replicate 64 65])"
proof -
  have h: "picolibc_stdout_queued init_state + int (length (replicate 64 (65 :: byte)))
             = PICOLIBC_STDOUT_BUFSIZE \<and> 10 \<notin> set (replicate 64 (65 :: byte))"
    by (simp add: init_state_def PICOLIBC_STDOUT_BUFSIZE_def)
  from count_within_capacity [OF wf_init_state, of uart_env "replicate 64 65" NULL] h
  show ?thesis
    by (auto simp add: wf_init_state pending_init_state)
qed

text \<open>
  C2: when the bytes queued before plus the bytes put stay below 64 (at start-up: any
  sequence shorter than 64) and no byte put is a line feed, the puts make no call to
  \<open>stdio_write\<close> and all bytes are queued in order. A \<open>picolibc_flush\<close> after them, and
  likewise a \<open>picolibc_get\<close>, hands exactly the queued bytes to \<open>stdio_write\<close>, in one
  call (no call when nothing is queued).
\<close>

theorem short_puts_stay_queued:
  assumes "wf s"
    and "picolibc_stdout_queued s + int (length cs) < PICOLIBC_STDOUT_BUFSIZE"
    and "10 \<notin> set cs"
  shows "\<exists>s1. puts env cs file s = Inr s1
     \<and> writes_of (new_events s s1) = []
     \<and> pending s1 = pending s @ cs
     \<and> (\<exists>s2. picolibc_flush env file s1 = Inr (0, s2)
           \<and> writes_of (new_events s1 s2) = (if pending s1 = [] then [] else [pending s1]))
     \<and> (\<exists>r s3. picolibc_get env file s1 = Inr (r, s3)
           \<and> writes_of (new_events s1 s3) = (if pending s1 = [] then [] else [pending s1]))"
proof -
  from assms(2) have "picolibc_stdout_queued s + int (length cs) < 64"
    by (simp add: PICOLIBC_STDOUT_BUFSIZE_def)
  from puts_quiet [OF assms(1) this assms(3), of env "file"]
  obtain s1 evs where r: "puts env cs file s = Inr s1" and w: "wf s1"
    and t: "trace s1 = trace s @ evs" and n: "writes_of evs = []"
    and p: "pending s1 = pending s @ cs"
    by blast
  from w have b: "0 \<le> picolibc_stdout_queued s1" "picolibc_stdout_queued s1 \<le> 64"
    by (simp_all add: wf_def PICOLIBC_STDOUT_BUFSIZE_def)
  have f: "\<exists>s2. picolibc_flush env file s1 = Inr (0, s2)
           \<and> writes_of (new_events s1 s2) = (if pending s1 = [] then [] else [pending s1])"
  proof (cases "picolibc_stdout_queued s1 = 0")
    case True
    then show ?thesis
      by (simp add: flush_empty new_events_def pending_def)
  next
    case False
    with b have "0 < picolibc_stdout_queued s1" by simp
    moreover from this w have "pending s1 \<noteq> []"
      by (auto simp add: pending_def wf_def)
    ultimately show ?thesis using b
      by (simp add: flush_nonempty new_events_def pending_def)
  qed
  have g: "\<exists>r s3. picolibc_get env file s1 = Inr (r, s3)
           \<and> writes_of (new_events s1 s3) = (if pending s1 = [] then [] else [pending s1])"
  proof (cases "picolibc_stdout_queued s1 = 0")
    case True
    then show ?thesis
      by (simp add: get_empty new_events_def pending_def)
  next
    case False
    with b have "0 < picolibc_stdout_queued s1" by simp
    moreover from this w have "pending s1 \<noteq> []"
      by (auto simp add: pending_def wf_def)
    ultimately show ?thesis using b
      by (simp add: get_nonempty new_events_def pending_def)
  qed
  from r n p f g new_events_eq [OF t] show ?thesis by simp
qed

theorem short_puts_stay_queued_witness:
  "wf init_state \<and> picolibc_stdout_queued init_state + int (length [72 :: byte, 105]) < PICOLIBC_STDOUT_BUFSIZE
   \<and> 10 \<notin> set [72 :: byte, 105]
   \<and> (\<exists>s1. puts uart_env [72, 105] NULL init_state = Inr s1
        \<and> writes_of (new_events init_state s1) = []
        \<and> pending s1 = [72, 105]
        \<and> (\<exists>s2. picolibc_flush uart_env NULL s1 = Inr (0, s2)
              \<and> writes_of (new_events s1 s2) = [[72, 105]])
        \<and> (\<exists>r s3. picolibc_get uart_env NULL s1 = Inr (r, s3)
              \<and> writes_of (new_events s1 s3) = [[72, 105]]))"
proof -
  have h2: "picolibc_stdout_queued init_state + int (length [72 :: byte, 105]) < PICOLIBC_STDOUT_BUFSIZE"
    by (simp add: init_state_def PICOLIBC_STDOUT_BUFSIZE_def)
  have h3: "10 \<notin> set [72 :: byte, 105]" by simp
  from short_puts_stay_queued [OF wf_init_state h2 h3, of uart_env NULL]
  show ?thesis
    using h2 h3 by (auto simp add: wf_init_state pending_init_state)
qed

subsection \<open>Line feed and input\<close>

lemma puts_hi: "puts uart_env [72, 105] NULL init_state = Inr queued_hi"
  by (simp add: picolibc_put_def prim_defs init_state_def queued_hi_def)

lemma wf_queued_hi: "wf queued_hi"
  by (simp add: wf_def queued_hi_def PICOLIBC_STDOUT_BUFSIZE_def)

lemma take_2_update: "2 \<le> length xs \<Longrightarrow> take 2 (xs[0 := a, 1 := b]) = [a, b]"
proof -
  assume l: "2 \<le> length xs"
  then obtain x ys where xs: "xs = x # ys" by (cases xs) auto
  with l obtain y zs where "ys = y # zs" by (cases ys) auto
  with xs show ?thesis by (simp add: numeral_2_eq_2)
qed

lemma take_2_hi: "take 2 ((replicate 64 (0 :: byte))[0 := 72, 1 := 105]) = [72, 105]"
  by (rule take_2_update) simp

lemma pending_queued_hi: "pending queued_hi = [72, 105]"
proof -
  have "pending queued_hi = take 2 ((replicate 64 0)[0 := 72, 1 := 105])"
    by (simp add: pending_def queued_hi_def)
  then show ?thesis by (simp only: take_2_hi)
qed

text \<open>
  C3: \<open>picolibc_put\<close> of a line feed stores it behind the queued bytes, then flushes
  before it unlocks and returns: the one \<open>stdio_write\<close> of the call gets the queued bytes
  followed by the line feed, which is its last byte, and the count is 0 afterwards.
  \<open>picolibc_put\<close> returns 1 for every byte.
\<close>

theorem put_line_feed_flushes:
  assumes "wf s"
  shows "\<exists>s'. picolibc_put env 10 file s = Inr (1, s')
     \<and> new_events s s' =
         [Mutex_lock, Queued_load, Queued_store (picolibc_stdout_queued s + 1),
          Stdout_store (nat (picolibc_stdout_queued s)) 10,
          Queued_load, Queued_load, Queued_load,
          Stdio_write (picolibc_stdout s') (nat (picolibc_stdout_queued s + 1)),
          Queued_store 0, Mutex_unlock]
     \<and> writes_of (new_events s s') = [pending s @ [10]]
     \<and> picolibc_stdout_queued s' = 0
     \<and> (\<exists>s''. picolibc_put env c file s = Inr (1, s''))"
proof -
  have r: "\<exists>s''. picolibc_put env c file s = Inr (1, s'')"
    using put_step [OF assms, of env c "file"] by blast
  show ?thesis
    using r pending_after_store [OF assms, of 10]
    by (simp add: put_flushing [OF assms] new_events_def)
qed

theorem put_line_feed_flushes_witness:
  "wf queued_hi
   \<and> (\<exists>s'. picolibc_put uart_env 10 NULL queued_hi = Inr (1, s')
         \<and> writes_of (new_events queued_hi s') = [[72, 105, 10]]
         \<and> picolibc_stdout_queued s' = 0)"
  using put_line_feed_flushes [OF wf_queued_hi, of uart_env NULL 10]
  by (auto simp add: wf_queued_hi pending_queued_hi)

text \<open>
  C4: \<open>picolibc_get\<close> first flushes under the mutex (with an empty buffer the flush
  only tests the count and writes nothing; otherwise it hands the queued bytes to
  \<open>stdio_write\<close>), and only then asks \<open>stdio_read\<close> for exactly one byte. It returns
  the byte the driver stored, as a \<open>char\<close> converted to \<open>int\<close> (the initial 0 when the
  driver stored none).
\<close>

theorem get_flushes_then_reads:
  assumes "wf s"
  shows "\<exists>s'. picolibc_get env file s =
            Inr (int_of_char env
                   (stored_char 0 (take 1 (stdio_read_data env (butlast (trace s')) 1))), s')
     \<and> new_events s s' =
         [Mutex_lock, Queued_load]
         @ (if picolibc_stdout_queued s = 0 then []
            else [Queued_load,
                  Stdio_write (picolibc_stdout s) (nat (picolibc_stdout_queued s)),
                  Queued_store 0])
         @ [Mutex_unlock, Stdio_read 1]
     \<and> writes_of (new_events s s') = (if pending s = [] then [] else [pending s])
     \<and> picolibc_stdout_queued s' = 0"
proof (cases "picolibc_stdout_queued s = 0")
  case True
  then show ?thesis
    by (simp add: get_empty new_events_def pending_def butlast_append)
next
  case False
  with assms have b: "0 < picolibc_stdout_queued s" "picolibc_stdout_queued s \<le> 64"
    by (simp_all add: wf_def PICOLIBC_STDOUT_BUFSIZE_def)
  with assms have "pending s \<noteq> []"
    by (auto simp add: pending_def wf_def)
  with b False show ?thesis
    by (simp add: get_nonempty new_events_def pending_def butlast_append)
qed

theorem get_flushes_then_reads_witness:
  "wf queued_hi
   \<and> (\<exists>s'. picolibc_get uart_env NULL queued_hi = Inr (65, s')
         \<and> writes_of (new_events queued_hi s') = [[72, 105]]
         \<and> picolibc_stdout_queued s' = 0)"
proof -
  have c: "int_of_char uart_env
             (stored_char 0 (take (Suc 0) (stdio_read_data uart_env tr (Suc 0)))) = 65"
    for tr
    by (simp add: int_of_char_def uart_env_def)
  from get_flushes_then_reads [OF wf_queued_hi, of uart_env NULL]
  show ?thesis
    by (auto simp add: c wf_queued_hi pending_queued_hi)
qed

subsection \<open>Process exit\<close>

text \<open>
  C5: for every exit code and every number of loop iterations, \<open>_exit\<close> has not
  returned; what has happened is the log of the code followed by the call to
  \<open>pm_off\<close>, and nothing after it.
\<close>

theorem exit_never_returns:
  "u_exit fuel n s = Still_running (s\<lparr>trace := trace s @ [Log_info n, Pm_off]\<rparr>)"
proof -
  have "while_1 fuel t = Still_running t" for t
    by (induction fuel) simp_all
  then show ?thesis
    by (simp add: u_exit_def pm_off_def LOG_INFO_def emit_def)
qed

subsection \<open>The bulk write\<close>

text \<open>
  C6: \<open>write\<close> makes exactly one call, \<open>stdio_write(data, count)\<close>, returns what that
  call returns, and does the same for every \<open>fd\<close>.
\<close>

theorem write_passes_through:
  "fst (write_syscall env fd data count s) = stdio_write_ret env (trace s) data count
   \<and> new_events s (snd (write_syscall env fd data count s)) = [Stdio_write data count]
   \<and> write_syscall env fd data count s = write_syscall env fd' data count s"
  by (simp add: write_syscall_def stdio_write_def emit_def new_events_def)

text \<open>
  C10: \<open>write\<close> leaves the array, the count and hence the queued bytes as they were;
  the only bytes it hands to the channel are the first \<open>count\<close> bytes of \<open>data\<close>.
\<close>

theorem write_leaves_buffer:
  "picolibc_stdout (snd (write_syscall env fd data count s)) = picolibc_stdout s
   \<and> picolibc_stdout_queued (snd (write_syscall env fd data count s)) = picolibc_stdout_queued s
   \<and> pending (snd (write_syscall env fd data count s)) = pending s
   \<and> writes_of (new_events s (snd (write_syscall env fd data count s))) = [take count data]
   \<and> snd (write_syscall env fd data count s) = s\<lparr>trace := trace s @ [Stdio_write data count]\<rparr>"
  by (simp add: write_syscall_def stdio_write_def emit_def new_events_def pending_def)

subsection \<open>Reachable states\<close>

text \<open>
  The state between two calls is kept by every call, so it is the state before every
  call of a caller that runs alone from start-up.
\<close>

lemma do_call_wf:
  assumes "wf s"
  shows "\<exists>s'. do_call env c s = Inr s' \<and> wf s'"
proof (cases c)
  case (Put x)
  from put_step [OF assms, of env x NULL] show ?thesis
    by (auto simp add: Put)
next
  case Flush
  from assms have b: "0 \<le> picolibc_stdout_queued s" "picolibc_stdout_queued s \<le> 64"
    by (simp_all add: wf_def PICOLIBC_STDOUT_BUFSIZE_def)
  show ?thesis
  proof (cases "picolibc_stdout_queued s = 0")
    case True
    with assms show ?thesis by (simp add: Flush flush_empty wf_def)
  next
    case False
    with b have "0 < picolibc_stdout_queued s" by simp
    with b assms show ?thesis
      by (simp add: Flush flush_nonempty wf_def PICOLIBC_STDOUT_BUFSIZE_def)
  qed
next
  case Get
  from assms have b: "0 \<le> picolibc_stdout_queued s" "picolibc_stdout_queued s \<le> 64"
    by (simp_all add: wf_def PICOLIBC_STDOUT_BUFSIZE_def)
  show ?thesis
  proof (cases "picolibc_stdout_queued s = 0")
    case True
    with assms show ?thesis by (simp add: Get get_empty wf_def)
  next
    case False
    with b have "0 < picolibc_stdout_queued s" by simp
    with b assms show ?thesis
      by (simp add: Get get_nonempty wf_def PICOLIBC_STDOUT_BUFSIZE_def)
  qed
qed

lemma do_calls_wf: "wf s \<Longrightarrow> \<exists>s'. do_calls env cs s = Inr s' \<and> wf s'"
proof (induction cs arbitrary: s)
  case Nil
  then show ?case by simp
next
  case (Cons c cs)
  from do_call_wf [OF Cons.prems, of env c]
  obtain s1 where "do_call env c s = Inr s1" "wf s1" by blast
  with Cons.IH [of s1] show ?case by simp
qed

subsection \<open>Locking\<close>

text \<open>
  Call by call: \<open>picolibc_put\<close> and \<open>picolibc_flush\<close> lock first, touch the statics
  and call \<open>stdio_write\<close> only while the mutex is held, and unlock before they return;
  \<open>picolibc_get\<close> does so up to its last event, the call to \<open>stdio_read\<close>, which comes
  after the unlock.
\<close>

lemma calls_lock_then_unlock:
  assumes "wf s"
  shows "(\<exists>s'. picolibc_put env c file s = Inr (1, s')
            \<and> guarded False (new_events s s') \<and> \<not> held_after False (new_events s s'))
       \<and> (\<exists>s'. picolibc_flush env file s = Inr (0, s')
            \<and> guarded False (new_events s s') \<and> \<not> held_after False (new_events s s'))
       \<and> (\<exists>r s' evs. picolibc_get env file s = Inr (r, s')
            \<and> new_events s s' = evs @ [Stdio_read 1]
            \<and> guarded False evs \<and> \<not> held_after False evs)"
proof -
  from assms have b: "0 \<le> picolibc_stdout_queued s" "picolibc_stdout_queued s \<le> 64"
    by (simp_all add: wf_def PICOLIBC_STDOUT_BUFSIZE_def)
  have p: "\<exists>s'. picolibc_put env c file s = Inr (1, s')
            \<and> guarded False (new_events s s') \<and> \<not> held_after False (new_events s s')"
  proof (cases "picolibc_stdout_queued s = 63 \<or> c = 10")
    case True
    show ?thesis by (simp add: put_flushing [OF assms True] new_events_def)
  next
    case False
    then have "picolibc_stdout_queued s \<noteq> 63" "c \<noteq> 10" by simp_all
    then show ?thesis by (simp add: put_queueing [OF assms] new_events_def)
  qed
  have f: "\<exists>s'. picolibc_flush env file s = Inr (0, s')
            \<and> guarded False (new_events s s') \<and> \<not> held_after False (new_events s s')"
  proof (cases "picolibc_stdout_queued s = 0")
    case True
    then show ?thesis by (simp add: flush_empty new_events_def)
  next
    case False
    with b have "0 < picolibc_stdout_queued s" by simp
    with b show ?thesis by (simp add: flush_nonempty new_events_def)
  qed
  have g: "\<exists>r s' evs. picolibc_get env file s = Inr (r, s')
            \<and> new_events s s' = evs @ [Stdio_read 1]
            \<and> guarded False evs \<and> \<not> held_after False evs"
  proof (cases "picolibc_stdout_queued s = 0")
    case True
    show ?thesis
      by (simp add: get_empty [OF True] new_events_def)
  next
    case False
    with b have q: "0 < picolibc_stdout_queued s" by simp
    show ?thesis
      by (simp add: get_nonempty [OF q b(2)] new_events_def)
  qed
  from p f g show ?thesis by blast
qed

text \<open>
  The statement lists are the functions: run alone, each gives the function's state or
  fault, for every state.
\<close>

lemma exec_put_code:
  "exec env 7 (put_code c) s =
     (case picolibc_put env c file s of Inl e \<Rightarrow> Inl e | Inr (r, s') \<Rightarrow> Inr ([], s'))"
  by (simp add: put_code_def picolibc_put_def u_picolibc_flush_def prim_defs
        eval_nat_numeral Let_def split: sum.splits)

lemma exec_flush_code:
  "exec env 5 flush_code s =
     (case picolibc_flush env file s of Inl e \<Rightarrow> Inl e | Inr (r, s') \<Rightarrow> Inr ([], s'))"
  by (simp add: flush_code_def picolibc_flush_def u_picolibc_flush_def prim_defs
        eval_nat_numeral Let_def split: sum.splits)

lemma exec_get_code:
  "exec env 6 get_code s =
     (case picolibc_get env file s of Inl e \<Rightarrow> Inl e | Inr (r, s') \<Rightarrow> Inr ([], s'))"
  by (simp add: get_code_def flush_code_def picolibc_get_def picolibc_flush_def
        u_picolibc_flush_def prim_defs eval_nat_numeral Let_def split: sum.splits)

lemma disciplined_append:
  "disciplined h (xs @ ys) \<longleftrightarrow> disciplined h xs \<and> disciplined (holder_after h xs) ys"
  by (induction h xs rule: disciplined.induct) auto

lemma holder_after_append:
  "holder_after h (xs @ ys) = holder_after (holder_after h xs) ys"
  by (induction h xs rule: holder_after.induct) auto

lemma well_locked_code_of:
  "well_locked False (code_of c @ r) = well_locked False r"
  by (cases c) (simp_all add: put_code_def flush_code_def get_code_def)

lemma well_locked_calls: "well_locked False (concat (map code_of cs))"
  by (induction cs) (simp_all add: well_locked_code_of)

lemma well_locked_unique: "well_locked h c \<Longrightarrow> well_locked h' c \<Longrightarrow> h = h'"
  by (induction h c rule: well_locked.induct) auto

lemma in_guard_held: "well_locked h c \<Longrightarrow> in_guard c \<Longrightarrow> h"
  by (induction h c rule: well_locked.induct) auto

lemma locked_right_start: "locked_right (start calls s)"
  by (simp add: locked_right_def start_def well_locked_calls)

lemma disciplined_needs_guard:
  "list_all needs_guard evs \<Longrightarrow>
   disciplined (Some t) (map (Pair t) evs) \<and> holder_after (Some t) (map (Pair t) evs) = Some t"
proof (induction evs)
  case Nil
  then show ?case by simp
next
  case (Cons e evs)
  then show ?case by (cases e) simp_all
qed

lemma thread_step_touches:
  assumes "touches i" and "thread_step env i s = Inr (pre, s')"
  shows "list_all needs_guard (new_events s s')
       \<and> (well_locked True r \<longrightarrow> well_locked True (pre @ r))"
  using assms
  by (cases i)
     (auto simp add: prim_defs new_events_def Let_def split: if_splits sum.splits)

lemma lock_unlock_events:
  "new_events s (mutex_lock s) = [Mutex_lock]"
  "new_events s (mutex_unlock s) = [Mutex_unlock]"
  by (simp_all add: prim_defs new_events_def)

lemma sys_step_locked_right:
  assumes inv: "locked_right \<sigma>" and st: "sys_step env t \<sigma> = Step \<sigma>'"
  shows "locked_right \<sigma>'"
proof -
  from inv have wl: "\<And>u. well_locked (holder \<sigma> = Some u) (conts \<sigma> u)"
    and di: "disciplined None (history \<sigma>)"
    and ha: "holder_after None (history \<sigma>) = holder \<sigma>"
    by (simp_all add: locked_right_def)
  from st obtain i rest where c: "conts \<sigma> t = i # rest"
    by (cases "conts \<sigma> t") (simp_all add: sys_step_def)
  from wl [of t] c have wt: "well_locked (holder \<sigma> = Some t) (i # rest)" by simp
  show ?thesis
  proof (cases "touches i")
    case True
    from st c True obtain pre s' where ts: "thread_step env i (shared \<sigma>) = Inr (pre, s')"
      and s': "\<sigma>' = \<lparr>shared = s', holder = holder \<sigma>, conts = (conts \<sigma>)(t := pre @ rest),
                      history = history \<sigma> @ map (Pair t) (new_events (shared \<sigma>) s')\<rparr>"
      by (cases i) (auto simp add: sys_step_def split: sum.splits if_splits)
    from True wt have h: "holder \<sigma> = Some t" and wr: "well_locked True rest"
      by (cases i; simp)+
    from thread_step_touches [OF True ts, of rest] wr
    have ev: "list_all needs_guard (new_events (shared \<sigma>) s')"
      and wp: "well_locked True (pre @ rest)" by simp_all
    from disciplined_needs_guard [OF ev, of t]
    have d: "disciplined (Some t) (map (Pair t) (new_events (shared \<sigma>) s'))"
      and a: "holder_after (Some t) (map (Pair t) (new_events (shared \<sigma>) s')) = Some t"
      by simp_all
    have "well_locked (holder \<sigma> = Some u) (((conts \<sigma>)(t := pre @ rest)) u)" for u
      using wl [of u] wp h by (cases "u = t") simp_all
    then show ?thesis
      using di ha h d a
      by (simp add: locked_right_def s' disciplined_append holder_after_append)
  next
    case False
    then consider "i = I_mutex_lock" | "i = I_mutex_unlock" | "i = I_stdio_read"
      by (cases i) simp_all
    then show ?thesis
    proof cases
      case 1
      with st c have free: "holder \<sigma> = None"
        by (simp add: sys_step_def split: if_splits)
      from st c 1 free have s': "\<sigma>' = \<lparr>shared = mutex_lock (shared \<sigma>), holder = Some t,
                      conts = (conts \<sigma>)(t := rest),
                      history = history \<sigma> @ [(t, Mutex_lock)]\<rparr>"
        by (simp add: sys_step_def lock_unlock_events)
      from wt 1 have wr: "well_locked True rest" by simp
      have "well_locked (Some t = Some u) (((conts \<sigma>)(t := rest)) u)" for u
        using wl [of u] wr free by simp
      then show ?thesis
        using di ha free
        by (simp add: locked_right_def s' disciplined_append holder_after_append)
    next
      case 2
      with wt have h: "holder \<sigma> = Some t" and wr: "well_locked False rest" by simp_all
      from st c 2 have s': "\<sigma>' = \<lparr>shared = mutex_unlock (shared \<sigma>), holder = None,
                      conts = (conts \<sigma>)(t := rest),
                      history = history \<sigma> @ [(t, Mutex_unlock)]\<rparr>"
        by (simp add: sys_step_def lock_unlock_events)
      have "well_locked False (((conts \<sigma>)(t := rest)) u)" for u
        using wl [of u] wr h by (cases "u = t") simp_all
      then show ?thesis
        using di ha h
        by (simp add: locked_right_def s' disciplined_append holder_after_append)
    next
      case 3
      with wt have h: "holder \<sigma> \<noteq> Some t" and wr: "well_locked False rest" by simp_all
      from st c 3 have s': "\<sigma>' = \<lparr>shared = snd (stdio_read env 1 (shared \<sigma>)),
                      holder = holder \<sigma>,
                      conts = (conts \<sigma>)(t := rest),
                      history = history \<sigma> @ [(t, Stdio_read 1)]\<rparr>"
        by (auto simp add: sys_step_def stdio_read_def emit_def new_events_def)
      have "well_locked (holder \<sigma> = Some u) (((conts \<sigma>)(t := rest)) u)" for u
        using wl [of u] wr h by (cases "u = t") simp_all
      then show ?thesis
        using di ha
        by (simp add: locked_right_def s' disciplined_append holder_after_append)
    qed
  qed
qed

lemma run_locked_right:
  "locked_right \<sigma> \<Longrightarrow> run env sched \<sigma> = Step \<sigma>' \<Longrightarrow> locked_right \<sigma>'"
proof (induction sched arbitrary: \<sigma>)
  case Nil
  then show ?case by simp
next
  case (Cons t ts)
  from Cons.prems(2) obtain \<sigma>1 where s1: "sys_step env t \<sigma> = Step \<sigma>1"
    and r: "run env ts \<sigma>1 = Step \<sigma>'"
    by (cases "sys_step env t \<sigma>") simp_all
  from sys_step_locked_right [OF Cons.prems(1) s1] have "locked_right \<sigma>1" .
  from Cons.IH [OF this r] show ?case .
qed

text \<open>
  No interleaving of calls runs into a fault: every store and every range handed to the
  channel stays inside the array (\<open>interleaved_calls_never_fault\<close>), and the count is
  within 0..64 in every state reached (\<open>interleaved_count_in_range\<close>).
\<close>

lemma idle_shape_calls: "idle_shape (concat (map code_of cs))"
  by (auto simp add: idle_shape_def)

lemma sane_start: "wf s \<Longrightarrow> sane (start calls s)"
  by (simp add: sane_def start_def wf_def idle_shape_calls PICOLIBC_STDOUT_BUFSIZE_def)

lemma calls_step:
  assumes "concat (map code_of cs) = i # rest"
  shows "i = I_mutex_lock \<and> (\<forall>q. 0 \<le> q \<and> q < 64 \<longrightarrow> fits q rest)"
proof (cases cs)
  case Nil
  with assms show ?thesis by simp
next
  case (Cons c cs')
  show ?thesis
  proof (cases c)
    case (Put x)
    with Cons assms have "i = I_mutex_lock"
      and "rest = I_put_store x # I_put_test x # I_mutex_unlock # concat (map code_of cs')"
      by (simp_all add: put_code_def)
    then show ?thesis
      using idle_shape_calls [of cs'] by (auto simp add: fits_def)
  next
    case Flush
    with Cons assms have "i = I_mutex_lock"
      and "rest = I_flush_test # I_mutex_unlock # concat (map code_of cs')"
      by (simp_all add: flush_code_def)
    then show ?thesis
      using idle_shape_calls [of cs'] by (auto simp add: fits_def)
  next
    case Get
    with Cons assms have "i = I_mutex_lock"
      and "rest = I_flush_test # I_mutex_unlock # I_stdio_read # concat (map code_of cs')"
      by (simp_all add: get_code_def flush_code_def)
    moreover have "idle_shape (I_stdio_read # concat (map code_of cs'))"
      by (auto simp add: idle_shape_def)
    ultimately show ?thesis
      by (auto simp add: fits_def)
  qed
qed

lemma idle_step:
  assumes "idle_shape (i # rest)"
  shows "(i = I_stdio_read \<and> idle_shape rest)
       \<or> (i = I_mutex_lock \<and> (\<forall>q. 0 \<le> q \<and> q < 64 \<longrightarrow> fits q rest))"
proof -
  from assms obtain cs where "i # rest = concat (map code_of cs)
      \<or> i # rest = I_stdio_read # concat (map code_of cs)"
    by (auto simp add: idle_shape_def)
  then show ?thesis
  proof
    assume "i # rest = concat (map code_of cs)"
    then have "concat (map code_of cs) = i # rest" by simp
    from calls_step [OF this] show ?thesis by simp
  next
    assume "i # rest = I_stdio_read # concat (map code_of cs)"
    then show ?thesis using idle_shape_calls [of cs] by simp
  qed
qed

lemma held_step:
  assumes "fits q (i # rest)" and "length (picolibc_stdout s) = 64"
    and "picolibc_stdout_queued s = q"
  shows "\<exists>pre s'. thread_step env i s = Inr (pre, s')
           \<and> length (picolibc_stdout s') = 64
           \<and> i \<noteq> I_mutex_lock \<and> i \<noteq> I_stdio_read
           \<and> (if i = I_mutex_unlock
               then idle_shape (pre @ rest)
                    \<and> 0 \<le> picolibc_stdout_queued s' \<and> picolibc_stdout_queued s' < 64
               else fits (picolibc_stdout_queued s') (pre @ rest))"
proof -
  from assms(1) obtain r where r: "idle_shape r"
    and sh: "(\<exists>c. i # rest = I_put_store c # I_put_test c # I_mutex_unlock # r \<and> 0 \<le> q \<and> q < 64)
       \<or> (\<exists>c. i # rest = I_put_test c # I_mutex_unlock # r \<and> 0 < q \<and> q \<le> 64)
       \<or> (i # rest = I_flush_test # I_mutex_unlock # r \<and> 0 \<le> q \<and> q \<le> 64)
       \<or> (i # rest = I_flush_write # I_flush_reset # I_mutex_unlock # r \<and> 0 \<le> q \<and> q \<le> 64)
       \<or> (i # rest = I_flush_reset # I_mutex_unlock # r \<and> 0 \<le> q \<and> q \<le> 64)
       \<or> (i # rest = I_mutex_unlock # r \<and> 0 \<le> q \<and> q < 64)"
    unfolding fits_def by blast
  from sh show ?thesis
  proof (elim disjE exE conjE)
    fix c assume "i # rest = I_put_store c # I_put_test c # I_mutex_unlock # r" "0 \<le> q" "q < 64"
    with r assms(2,3) show ?thesis
      by (auto simp add: prim_defs fits_def)
  next
    fix c assume "i # rest = I_put_test c # I_mutex_unlock # r" "0 < q" "q \<le> 64"
    with r assms(2,3) show ?thesis
      by (auto simp add: prim_defs fits_def)
  next
    assume "i # rest = I_flush_test # I_mutex_unlock # r" "0 \<le> q" "q \<le> 64"
    with r assms(2,3) show ?thesis
      by (auto simp add: prim_defs fits_def)
  next
    assume "i # rest = I_flush_write # I_flush_reset # I_mutex_unlock # r" "0 \<le> q" "q \<le> 64"
    with r assms(2,3) show ?thesis
      by (auto simp add: prim_defs fits_def)
  next
    assume "i # rest = I_flush_reset # I_mutex_unlock # r" "0 \<le> q" "q \<le> 64"
    with r assms(2,3) show ?thesis
      by (auto simp add: prim_defs fits_def)
  next
    assume "i # rest = I_mutex_unlock # r" "0 \<le> q" "q < 64"
    with r assms(2,3) show ?thesis
      by (auto simp add: prim_defs)
  qed
qed

lemma stdio_read_frame:
  "picolibc_stdout (snd (stdio_read env n s)) = picolibc_stdout s"
  "picolibc_stdout_queued (snd (stdio_read env n s)) = picolibc_stdout_queued s"
  by (simp_all add: stdio_read_def emit_def)

lemma mutex_lock_frame:
  "picolibc_stdout (mutex_lock s) = picolibc_stdout s"
  "picolibc_stdout_queued (mutex_lock s) = picolibc_stdout_queued s"
  by (simp_all add: mutex_lock_def emit_def)

lemma sys_step_sane:
  assumes sa: "sane \<sigma>"
  shows "sys_step env t \<sigma> \<noteq> Faulted e \<and> (sys_step env t \<sigma> = Step \<sigma>' \<longrightarrow> sane \<sigma>')"
proof (cases "conts \<sigma> t")
  case Nil
  then show ?thesis by (simp add: sys_step_def)
next
  case (Cons i rest)
  let ?q = "picolibc_stdout_queued (shared \<sigma>)"
  from sa have len: "length (picolibc_stdout (shared \<sigma>)) = 64"
    and sh: "\<And>u. if holder \<sigma> = Some u then fits ?q (conts \<sigma> u) else idle_shape (conts \<sigma> u)"
    and fr: "holder \<sigma> = None \<Longrightarrow> 0 \<le> ?q \<and> ?q < 64"
    by (simp_all add: sane_def)
  show ?thesis
  proof (cases "holder \<sigma> = Some t")
    case True
    with sh [of t] Cons have "fits ?q (i # rest)" by simp
    from held_step [OF this len refl, of env]
    obtain pre s' where ts: "thread_step env i (shared \<sigma>) = Inr (pre, s')"
      and l': "length (picolibc_stdout s') = 64"
      and ni: "i \<noteq> I_mutex_lock" "i \<noteq> I_stdio_read"
      and nx: "if i = I_mutex_unlock
               then idle_shape (pre @ rest)
                    \<and> 0 \<le> picolibc_stdout_queued s' \<and> picolibc_stdout_queued s' < 64
               else fits (picolibc_stdout_queued s') (pre @ rest)"
      by blast
    have others: "idle_shape (conts \<sigma> u)" if "u \<noteq> t" for u
      using sh [of u] True that by simp
    from Cons ts ni have st: "sys_step env t \<sigma> =
        Step \<lparr>shared = s', holder = (if i = I_mutex_unlock then None else holder \<sigma>),
              conts = (conts \<sigma>)(t := pre @ rest),
              history = history \<sigma> @ map (Pair t) (new_events (shared \<sigma>) s')\<rparr>"
      by (simp add: sys_step_def)
    show ?thesis
    proof (cases "i = I_mutex_unlock")
      case True
      with st nx l' others show ?thesis
        by (auto simp add: sane_def)
    next
      case False
      with st nx l' others \<open>holder \<sigma> = Some t\<close> show ?thesis
        by (auto simp add: sane_def)
    qed
  next
    case False
    with sh [of t] Cons have "idle_shape (i # rest)" by simp
    from idle_step [OF this]
    consider (rd) "i = I_stdio_read" "idle_shape rest"
      | (lk) "i = I_mutex_lock" "\<And>q. 0 \<le> q \<Longrightarrow> q < 64 \<Longrightarrow> fits q rest"
      by blast
    then show ?thesis
    proof cases
      case rd
      from Cons rd(1) have st: "sys_step env t \<sigma> =
        Step \<lparr>shared = snd (stdio_read env 1 (shared \<sigma>)), holder = holder \<sigma>,
              conts = (conts \<sigma>)(t := rest),
              history = history \<sigma> @ map (Pair t)
                          (new_events (shared \<sigma>) (snd (stdio_read env 1 (shared \<sigma>))))\<rparr>"
        by (simp add: sys_step_def)
      have a: "fits ?q (((conts \<sigma>)(t := rest)) u)" if "holder \<sigma> = Some u" for u
        using sh [of u] False that by (cases "u = t") simp_all
      have b: "idle_shape (((conts \<sigma>)(t := rest)) u)" if "holder \<sigma> \<noteq> Some u" for u
        using sh [of u] rd(2) that by (cases "u = t") simp_all
      have "sane \<lparr>shared = snd (stdio_read env 1 (shared \<sigma>)), holder = holder \<sigma>,
              conts = (conts \<sigma>)(t := rest),
              history = history \<sigma> @ map (Pair t)
                          (new_events (shared \<sigma>) (snd (stdio_read env 1 (shared \<sigma>))))\<rparr>"
        using len fr a b by (auto simp add: sane_def stdio_read_frame)
      with st show ?thesis by auto
    next
      case lk
      show ?thesis
      proof (cases "holder \<sigma>")
        case (Some u)
        with Cons lk(1) show ?thesis by (simp add: sys_step_def)
      next
        case None
        from Cons lk(1) None have st: "sys_step env t \<sigma> =
          Step \<lparr>shared = mutex_lock (shared \<sigma>), holder = Some t,
                conts = (conts \<sigma>)(t := rest),
                history = history \<sigma> @ map (Pair t)
                            (new_events (shared \<sigma>) (mutex_lock (shared \<sigma>)))\<rparr>"
          by (simp add: sys_step_def)
        from fr [OF None] lk(2) have a: "fits ?q rest" by simp
        have b: "idle_shape (conts \<sigma> u)" for u
          using sh [of u] None by simp
        have "sane \<lparr>shared = mutex_lock (shared \<sigma>), holder = Some t,
                conts = (conts \<sigma>)(t := rest),
                history = history \<sigma> @ map (Pair t)
                            (new_events (shared \<sigma>) (mutex_lock (shared \<sigma>)))\<rparr>"
          using len a b by (auto simp add: sane_def mutex_lock_frame)
        with st show ?thesis by auto
      qed
    qed
  qed
qed

lemma run_never_faults:
  "sane \<sigma> \<Longrightarrow> run env sched \<sigma> \<noteq> Faulted e"
proof (induction sched arbitrary: \<sigma>)
  case Nil
  then show ?case by simp
next
  case (Cons t ts)
  show ?case
  proof (cases "sys_step env t \<sigma>")
    case Blocked
    then show ?thesis by simp
  next
    case (Faulted x)
    with sys_step_sane [OF Cons.prems, of env t x] show ?thesis by simp
  next
    case (Step \<sigma>1)
    with sys_step_sane [OF Cons.prems, of env t e \<sigma>1] have "sane \<sigma>1" by simp
    from Cons.IH [OF this] Step show ?thesis by simp
  qed
qed

lemma interleaved_calls_never_fault:
  "wf s \<Longrightarrow> run env sched (start calls s) \<noteq> Faulted e"
  by (rule run_never_faults [OF sane_start])

lemma run_sane: "sane \<sigma> \<Longrightarrow> run env sched \<sigma> = Step \<sigma>' \<Longrightarrow> sane \<sigma>'"
proof (induction sched arbitrary: \<sigma>)
  case Nil
  then show ?case by simp
next
  case (Cons t ts)
  from Cons.prems(2) obtain \<sigma>1 where s1: "sys_step env t \<sigma> = Step \<sigma>1"
    and r: "run env ts \<sigma>1 = Step \<sigma>'"
    by (cases "sys_step env t \<sigma>") simp_all
  from sys_step_sane [OF Cons.prems(1), of env t Out_of_bounds \<sigma>1] s1
  have "sane \<sigma>1" by simp
  from Cons.IH [OF this r] show ?case .
qed

lemma interleaved_count_in_range:
  assumes "wf s" and "run env sched (start calls s) = Step \<sigma>"
  shows "0 \<le> picolibc_stdout_queued (shared \<sigma>)
       \<and> picolibc_stdout_queued (shared \<sigma>) \<le> PICOLIBC_STDOUT_BUFSIZE
       \<and> length (picolibc_stdout (shared \<sigma>)) = 64"
proof -
  from run_sane [OF sane_start [OF assms(1)] assms(2)] have sa: "sane \<sigma>" .
  show ?thesis
  proof (cases "holder \<sigma>")
    case None
    with sa show ?thesis by (simp add: sane_def PICOLIBC_STDOUT_BUFSIZE_def)
  next
    case (Some t)
    with sa have "fits (picolibc_stdout_queued (shared \<sigma>)) (conts \<sigma> t)"
      and "length (picolibc_stdout (shared \<sigma>)) = 64"
      by (simp_all add: sane_def)
    then show ?thesis
      by (auto simp add: fits_def PICOLIBC_STDOUT_BUFSIZE_def)
  qed
qed

lemma run_two_getters:
  "run uart_env [0, 0, 0, 1, 1, 1] (start two_getters init_state) = Step both_in_get"
  by (simp add: start_def two_getters_def both_in_get_def sys_step_def get_code_def
        flush_code_def prim_defs new_events_def init_state_def fun_eq_iff)

text \<open>
  C9 as stated fails for \<open>picolibc_get\<close>. At start-up it locks, tests the count,
  unlocks and then calls \<open>stdio_read\<close>: this channel interaction happens while the mutex
  is not held. So two threads that call \<open>picolibc_get\<close> can both be inside it: after the
  steps 0, 0, 0, 1, 1, 1 both have flushed and each still has its read to do.
\<close>

theorem get_read_is_unguarded:
  "picolibc_get uart_env NULL init_state =
     Inr (65, init_state\<lparr>trace := [Mutex_lock, Queued_load, Mutex_unlock, Stdio_read 1]\<rparr>)
   \<and> \<not> guarded False
         (new_events init_state
            (init_state\<lparr>trace := [Mutex_lock, Queued_load, Mutex_unlock, Stdio_read 1]\<rparr>))
   \<and> run uart_env [0, 0, 0, 1, 1, 1] (start two_getters init_state) = Step both_in_get
   \<and> conts both_in_get 0 = [I_stdio_read]
   \<and> conts both_in_get 1 = [I_stdio_read]"
proof -
  have "picolibc_stdout_queued init_state = 0" by (simp add: init_state_def)
  then have g: "picolibc_get uart_env NULL init_state =
     Inr (65, init_state\<lparr>trace := [Mutex_lock, Queued_load, Mutex_unlock, Stdio_read 1]\<rparr>)"
    by (simp add: get_empty init_state_def int_of_char_def uart_env_def)
  have n: "\<not> guarded False
         (new_events init_state
            (init_state\<lparr>trace := [Mutex_lock, Queued_load, Mutex_unlock, Stdio_read 1]\<rparr>))"
    by (simp add: new_events_def init_state_def)
  have c0: "conts both_in_get 0 = [I_stdio_read]"
    and c1: "conts both_in_get 1 = [I_stdio_read]"
    by (simp_all add: both_in_get_def)
  show ?thesis
    by (rule conjI [OF g conjI [OF n conjI [OF run_two_getters conjI [OF c0 c1]]]])
qed

text \<open>
  C9, as the code has it. In every state that any schedule of any calls of any number
  of threads reaches: every access to the statics and every \<open>stdio_write\<close> so far was
  made by the thread holding the mutex, which was locked only when free and unlocked
  only by its holder; a thread in the guarded part of a call holds the mutex, so at most
  one thread is there; a thread between two calls (or done) does not hold it; and a thread
  about to make the \<open>stdio_read\<close> of \<open>picolibc_get\<close> does not hold it either.
  The threads run the statement lists of \<open>code_of\<close>, which are the three functions
  (\<open>exec_put_code\<close>, \<open>exec_flush_code\<close>, \<open>exec_get_code\<close>).
\<close>

theorem mutex_guards_buffer:
  assumes "run env sched (start calls s) = Step \<sigma>"
  shows "disciplined None (history \<sigma>)
       \<and> (\<forall>t. in_guard (conts \<sigma> t) \<longrightarrow> holder \<sigma> = Some t)
       \<and> (\<forall>t u. in_guard (conts \<sigma> t) \<and> in_guard (conts \<sigma> u) \<longrightarrow> t = u)
       \<and> (\<forall>t cs. conts \<sigma> t = concat (map code_of cs) \<longrightarrow> holder \<sigma> \<noteq> Some t)
       \<and> (\<forall>t r. conts \<sigma> t = I_stdio_read # r \<longrightarrow> holder \<sigma> \<noteq> Some t)"
proof -
  from run_locked_right [OF locked_right_start assms]
  have wl: "\<And>t. well_locked (holder \<sigma> = Some t) (conts \<sigma> t)"
    and di: "disciplined None (history \<sigma>)"
    by (simp_all add: locked_right_def)
  have g: "holder \<sigma> = Some t" if "in_guard (conts \<sigma> t)" for t
    using in_guard_held [OF wl [of t] that] .
  have x: "t = u" if "in_guard (conts \<sigma> t)" "in_guard (conts \<sigma> u)" for t u
    using g [OF that(1)] g [OF that(2)] by simp
  have b: "holder \<sigma> \<noteq> Some t" if "conts \<sigma> t = concat (map code_of cs)" for t cs
    using well_locked_unique [OF wl [of t], of False] well_locked_calls [of cs] that by auto
  have r: "holder \<sigma> \<noteq> Some t" if "conts \<sigma> t = I_stdio_read # r" for t r
    using wl [of t] that by auto
  from di g x b r show ?thesis by blast
qed

theorem mutex_guards_buffer_witness:
  "\<exists>\<sigma>. run uart_env [0, 0] (start put_and_get init_state) = Step \<sigma>
      \<and> in_guard (conts \<sigma> 0) \<and> \<not> in_guard (conts \<sigma> 1) \<and> holder \<sigma> = Some 0
      \<and> disciplined None (history \<sigma>)"
proof -
  have "\<exists>\<sigma>. run uart_env [0, 0] (start put_and_get init_state) = Step \<sigma>
      \<and> in_guard (conts \<sigma> 0) \<and> \<not> in_guard (conts \<sigma> 1)"
    by (simp add: start_def put_and_get_def sys_step_def put_code_def get_code_def
          flush_code_def prim_defs init_state_def)
  then obtain \<sigma> where r: "run uart_env [0, 0] (start put_and_get init_state) = Step \<sigma>"
    and g: "in_guard (conts \<sigma> 0)" "\<not> in_guard (conts \<sigma> 1)"
    by blast
  from mutex_guards_buffer [OF r] g(1)
  have "holder \<sigma> = Some 0" "disciplined None (history \<sigma>)" by blast+
  with r g show ?thesis by blast
qed

subsection \<open>Unsupported entry points\<close>

text \<open>
  C7: each unsupported entry point fails at once with its fixed error code, whatever
  its arguments and whatever the state: \<open>close\<close> returns -1 and sets \<open>errno\<close> to
  \<open>ENODEV\<close>, \<open>kill\<close> returns -1 and sets \<open>errno\<close> to \<open>ESRCH\<close>, \<open>times\<close> returns -1 and
  sets \<open>errno\<close> to \<open>ENOSYS\<close>; none of them calls a collaborator.
\<close>

theorem unsupported_fail_fixed:
  "fst (close fd s) = - 1 \<and> errno (snd (close fd s)) = ENODEV
     \<and> trace (snd (close fd s)) = trace s
   \<and> fst (kill pid sig s) = - 1 \<and> errno (snd (kill pid sig s)) = ESRCH
     \<and> trace (snd (kill pid sig s)) = trace s
   \<and> fst (times_syscall ptms s) = - 1 \<and> errno (snd (times_syscall ptms s)) = ENOSYS
     \<and> trace (snd (times_syscall ptms s)) = trace s"
  by (simp add: close_def kill_def times_syscall_def)

text \<open>
  C8: the failing \<open>times\<close> leaves every \<open>struct tms\<close> object, the one at \<open>ptms\<close>
  included, as it was; only \<open>errno\<close> changes.
\<close>

theorem times_leaves_tms:
  "tms_mem (snd (times_syscall ptms s)) = tms_mem s
   \<and> tms_mem (snd (times_syscall ptms s)) ptms = tms_mem s ptms
   \<and> snd (times_syscall ptms s) = s\<lparr>errno := ENOSYS\<rparr>"
  by (simp add: times_syscall_def)


end
